theory Spec2Isabelle
  imports Main "HOL-Library.Word" "HOL-Library.Multiset"
begin

unbundle bit_operations_syntax

section \<open>Data model of \<^verbatim>\<open>mph.go\<close>\<close>

text \<open>
  Keys are byte sequences (Go's \<^verbatim>\<open>string | []byte\<close>); a \<^typ>\<open>char\<close> of HOL is one byte.
  Go's \<^verbatim>\<open>int\<close> holds lengths, indices and masks here. All of them are non-negative and
  at most twice the length of a slice that exists in memory, which is far below the largest
  \<^verbatim>\<open>int\<close>, so no operation on them overflows and they are \<^typ>\<open>nat\<close>.
  \<^verbatim>\<open>uint32\<close> is \<^typ>\<open>32 word\<close>; the conversion \<^verbatim>\<open>int(x)\<close> of a \<^verbatim>\<open>uint32\<close> is
  \<open>unat\<close>, and \<^verbatim>\<open>uint32(i)\<close> of an \<^verbatim>\<open>int\<close> is \<open>word_of_nat\<close>, which truncates to 32 bits.
  The field \<^verbatim>\<open>n\<close> of \<^verbatim>\<open>indexBucket\<close> is \<open>bucket_n\<close> here, and the local variables
  \<^verbatim>\<open>level0\<close>, \<^verbatim>\<open>level1\<close> and their masks are \<open>lvl0\<close>, \<open>lvl1\<close>, \<open>mask0\<close>, \<open>mask1\<close>, since
  the names of the record fields are taken.
\<close>

type_synonym bytes = string
type_synonym uint32 = "32 word"

text \<open>
  Modelled from the spec: \<^verbatim>\<open>murmurSeed\<close> and \<^verbatim>\<open>murmurHash\<close> are used by
  \<^verbatim>\<open>mph.go\<close> but declared in no file under src. The spec gives the contract
  \<^verbatim>\<open>hash(seed, data) -> unsigned 32-bit integer\<close>, pure and deterministic, and the
  source converts a seed to and from \<^verbatim>\<open>uint32\<close>; the seed is taken as a 32-bit
  unsigned integer (so \<^verbatim>\<open>seed++\<close> wraps at \<open>2 ^ 32\<close>) and the hash function is a
  parameter of every definition that calls it.
\<close>

type_synonym murmurSeed = "32 word"
type_synonym hashfn = "murmurSeed \<Rightarrow> bytes \<Rightarrow> uint32"

record Table =
  keys :: "bytes list"
  level0 :: "uint32 list"
  level0Mask :: nat
  level1 :: "uint32 list"
  level1Mask :: nat

record indexBucket =
  bucket_n :: nat
  vals :: "nat list"

datatype error = IndexOutOfRange

section \<open>\<^verbatim>\<open>nextPow2\<close>\<close>

text \<open>
  \<^verbatim>\<open>for i := 1; ; i *= 2 { if i >= n { return i } }\<close>. The loop has no bound of its
  own, so it is a partial function; that it returns from \<open>i = 1\<close> is a lemma below.
\<close>

partial_function (option) nextPow2_loop :: "nat \<Rightarrow> nat \<Rightarrow> nat option" where
  "nextPow2_loop i n = (if i \<ge> n then Some i else nextPow2_loop (i * 2) n)"

declare nextPow2_loop.simps [code]

definition nextPow2 :: "nat \<Rightarrow> nat option" where
  "nextPow2 n = nextPow2_loop 1 n"

section \<open>\<^verbatim>\<open>bySize\<close> and \<^verbatim>\<open>sort.Sort\<close>\<close>

text \<open>\<^verbatim>\<open>Less(i, j) = len(s[i].vals) > len(s[j].vals)\<close>, on the elements.\<close>

definition Less :: "indexBucket \<Rightarrow> indexBucket \<Rightarrow> bool" where
  "Less a b = (length (vals a) > length (vals b))"

text \<open>
  \<^verbatim>\<open>sort.Sort\<close> belongs to Go's standard library, not to this repository. Its documented
  contract: the data is rearranged (by \<^verbatim>\<open>Swap\<close>) so that it is in ascending order as
  determined by \<^verbatim>\<open>Less\<close>, and the sort is not guaranteed to be stable. The sorting
  routine is a parameter of \<open>Build\<close>, and \<open>sort_contract\<close> is that contract.
\<close>

definition sort_contract :: "(indexBucket list \<Rightarrow> indexBucket list) \<Rightarrow> bool" where
  "sort_contract srt =
     (\<forall>bs. mset (srt bs) = mset bs \<and> sorted_wrt (\<lambda>a b. \<not> Less b a) (srt bs))"

section \<open>\<^verbatim>\<open>Build\<close>\<close>

text \<open>
  The slot of a hash value: \<^verbatim>\<open>int(murmurHash(seed, s)) & mask\<close>. Where \<^verbatim>\<open>int\<close> has 32
  bits the conversion may be negative; the mask is not, so the result is the same low bits.

  The index expressions of \<open>Build\<close> are written with \<open>!\<close> and list update, without a
  branch for a panic: a slot is at most its mask, which is the length of the indexed array
  minus one (\<open>slot_le_mask\<close>), and the buckets hold indices of keys and of \<^verbatim>\<open>level0\<close>
  only (\<open>sortedBuckets_props\<close>). \<open>Lookup\<close> below checks every index.
\<close>

definition slot :: "hashfn \<Rightarrow> nat \<Rightarrow> murmurSeed \<Rightarrow> bytes \<Rightarrow> nat" where
  "slot murmurHash msk seed s = unat (murmurHash seed s) AND msk"

text \<open>
  Lines 29-34: the loop over \<^verbatim>\<open>keys\<close>; \<open>i\<close> is the index of the head of the remaining
  keys. It appends \<open>i\<close> to the sparse bucket of the key and the key's bytes to the pool.
\<close>

fun partitionKeys ::
  "hashfn \<Rightarrow> nat \<Rightarrow> bytes list \<Rightarrow> nat \<Rightarrow> nat list list \<times> bytes list \<Rightarrow> nat list list \<times> bytes list"
where
  "partitionKeys murmurHash mask0 [] i (sparseBuckets, pool) = (sparseBuckets, pool)"
| "partitionKeys murmurHash mask0 (s # ss) i (sparseBuckets, pool) =
     (let n = slot murmurHash mask0 0 s
      in partitionKeys murmurHash mask0 ss (i + 1)
           (sparseBuckets[n := sparseBuckets ! n @ [i]], pool @ [s]))"

text \<open>Lines 35-40: the non-empty sparse buckets, each with its index, in index order.\<close>

fun collectBuckets :: "nat list list \<Rightarrow> nat \<Rightarrow> indexBucket list \<Rightarrow> indexBucket list" where
  "collectBuckets [] n buckets = buckets"
| "collectBuckets (vs # rest) n buckets =
     collectBuckets rest (n + 1)
       (if length vs > 0 then buckets @ [\<lparr>bucket_n = n, vals = vs\<rparr>] else buckets)"

text \<open>Lines 52-54: the marks of the failed trial are cleared.\<close>

fun unmark :: "nat list \<Rightarrow> bool list \<Rightarrow> bool list" where
  "unmark [] occ = occ"
| "unmark (n # tmpOcc) occ = unmark tmpOcc (occ[n := False])"

text \<open>
  Lines 49-61: one trial of a seed over the key indices of a bucket. The result is
  \<open>(ok, occ, tmpOcc, lvl1)\<close>; \<open>ok = False\<close> is the path through \<^verbatim>\<open>goto trySeed\<close>,
  taken after the marks of the trial are cleared. The writes to \<^verbatim>\<open>level1\<close> stay.
\<close>

fun tryVals ::
  "hashfn \<Rightarrow> bytes list \<Rightarrow> nat \<Rightarrow> murmurSeed \<Rightarrow> nat list \<Rightarrow>
   bool list \<times> nat list \<times> uint32 list \<Rightarrow> bool \<times> bool list \<times> nat list \<times> uint32 list"
where
  "tryVals murmurHash ks mask1 seed [] (occ, tmpOcc, lvl1) = (True, occ, tmpOcc, lvl1)"
| "tryVals murmurHash ks mask1 seed (i # is) (occ, tmpOcc, lvl1) =
     (let n = slot murmurHash mask1 seed (ks ! i)
      in if occ ! n then (False, unmark tmpOcc occ, tmpOcc, lvl1)
         else tryVals murmurHash ks mask1 seed is
                (occ[n := True], tmpOcc @ [n], lvl1[n := word_of_nat i]))"

text \<open>
  Lines 46-62: the label \<^verbatim>\<open>trySeed\<close>. \<^verbatim>\<open>tmpOcc = tmpOcc[:0]\<close> empties the list of marks,
  a failed trial goes on with \<^verbatim>\<open>seed++\<close> (which wraps around in 32 bits). Nothing bounds
  the number of trials, so the function is partial: \<open>None\<close> is a search that never ends.
\<close>

partial_function (option) trySeed ::
  "hashfn \<Rightarrow> bytes list \<Rightarrow> nat \<Rightarrow> murmurSeed \<Rightarrow> nat list \<Rightarrow> bool list \<Rightarrow> uint32 list \<Rightarrow>
   (murmurSeed \<times> bool list \<times> uint32 list) option"
where
  "trySeed murmurHash ks mask1 seed bvals occ lvl1 =
     (case tryVals murmurHash ks mask1 seed bvals (occ, [], lvl1) of
        (ok, occ', tmpOcc, lvl1') \<Rightarrow>
          if ok then Some (seed, occ', lvl1')
          else trySeed murmurHash ks mask1 (seed + 1) bvals occ' lvl1')"

text \<open>Lines 45-63: the loop over the sorted buckets.\<close>

fun placeBuckets ::
  "hashfn \<Rightarrow> bytes list \<Rightarrow> nat \<Rightarrow> indexBucket list \<Rightarrow>
   uint32 list \<times> bool list \<times> uint32 list \<Rightarrow> (uint32 list \<times> bool list \<times> uint32 list) option"
where
  "placeBuckets murmurHash ks mask1 [] (lvl0, occ, lvl1) = Some (lvl0, occ, lvl1)"
| "placeBuckets murmurHash ks mask1 (bucket # buckets) (lvl0, occ, lvl1) =
     (case trySeed murmurHash ks mask1 0 (vals bucket) occ lvl1 of
        None \<Rightarrow> None
      | Some (seed, occ', lvl1') \<Rightarrow>
          placeBuckets murmurHash ks mask1 buckets
            (lvl0[bucket_n bucket := seed], occ', lvl1'))"

text \<open>The buckets in the order in which the loop of line 45 visits them.\<close>

definition sortedBuckets ::
  "(indexBucket list \<Rightarrow> indexBucket list) \<Rightarrow> hashfn \<Rightarrow> bytes list \<Rightarrow> nat \<Rightarrow> indexBucket list"
where
  "sortedBuckets sortBySize murmurHash ks l0 =
     sortBySize (collectBuckets
       (fst (partitionKeys murmurHash (l0 - 1) ks 0 (replicate l0 [], []))) 0 [])"

definition Build ::
  "(indexBucket list \<Rightarrow> indexBucket list) \<Rightarrow> hashfn \<Rightarrow> bytes list \<Rightarrow> Table option"
where
  "Build sortBySize murmurHash ks =
     (case nextPow2 (length ks div 4) of None \<Rightarrow> None | Some l0 \<Rightarrow>
      case nextPow2 (length ks) of None \<Rightarrow> None | Some l1 \<Rightarrow>
        let pool = snd (partitionKeys murmurHash (l0 - 1) ks 0 (replicate l0 [], []));
            buckets = sortedBuckets sortBySize murmurHash ks l0
        in case placeBuckets murmurHash ks (l1 - 1) buckets
                  (replicate l0 0, replicate l1 False, replicate l1 0) of
             None \<Rightarrow> None
           | Some (lv0, occ, lv1) \<Rightarrow>
               Some \<lparr>keys = pool, level0 = lv0, level0Mask = l0 - 1,
                     level1 = lv1, level1Mask = l1 - 1\<rparr>)"

section \<open>\<^verbatim>\<open>Lookup\<close>\<close>

text \<open>An index expression \<^verbatim>\<open>xs[i]\<close> of Go panics when \<open>i\<close> is out of range.\<close>

definition index :: "'a list \<Rightarrow> nat \<Rightarrow> error + 'a" where
  "index xs i = (if i < length xs then Inr (xs ! i) else Inl IndexOutOfRange)"

definition Lookup :: "hashfn \<Rightarrow> Table \<Rightarrow> bytes \<Rightarrow> error + (uint32 \<times> bool)" where
  "Lookup murmurHash t s =
     (let i0 = slot murmurHash (level0Mask t) 0 s in
      case index (level0 t) i0 of Inl e \<Rightarrow> Inl e | Inr seed \<Rightarrow>
      let i1 = slot murmurHash (level1Mask t) seed s in
      case index (level1 t) i1 of Inl e \<Rightarrow> Inl e | Inr n \<Rightarrow>
      case index (keys t) (unat n) of Inl e \<Rightarrow> Inl e | Inr k \<Rightarrow> Inr (n, s = k))"

section \<open>The two-level path and the result of a lookup\<close>

text \<open>
  The slot of \<^verbatim>\<open>level1\<close> that the two hash levels reach for the key at index \<open>i\<close>:
  \<^verbatim>\<open>i0 = hash(0, k) & level0Mask\<close>, \<^verbatim>\<open>seed = level0[i0]\<close>,
  \<^verbatim>\<open>i1 = hash(seed, k) & level1Mask\<close>.
\<close>

definition keySlot :: "hashfn \<Rightarrow> bytes list \<Rightarrow> nat \<Rightarrow> nat \<Rightarrow> uint32 list \<Rightarrow> nat \<Rightarrow> nat" where
  "keySlot h ks m0 m1 lvl0 i = slot h m1 (lvl0 ! slot h m0 0 (ks ! i)) (ks ! i)"

text \<open>The index that \<open>Lookup\<close> returns, as a number; \<open>None\<close> when \<open>Lookup\<close> panics.\<close>

definition lookupIndex :: "hashfn \<Rightarrow> Table \<Rightarrow> bytes \<Rightarrow> nat option" where
  "lookupIndex h t s = (case Lookup h t s of Inl e \<Rightarrow> None | Inr (n, ok) \<Rightarrow> Some (unat n))"

text \<open>
  What a returning seed search has established: the lengths are kept, the slots of the bucket
  under the seed found are pairwise distinct, were free before and are occupied now, each
  holds the index of its key, no other slot became occupied, the entries of slots occupied
  before are unchanged, and every entry of \<^verbatim>\<open>level1\<close> is an old one or an index of the
  bucket.
\<close>

definition trySeed_post ::
  "hashfn \<Rightarrow> bytes list \<Rightarrow> nat \<Rightarrow> nat list \<Rightarrow> bool list \<Rightarrow> uint32 list \<Rightarrow>
   murmurSeed \<times> bool list \<times> uint32 list \<Rightarrow> bool"
where
  "trySeed_post h ks m vs occ lvl1 r =
     (case r of (seed', occ', lvl1') \<Rightarrow>
        length occ' = length occ \<and> length lvl1' = length lvl1 \<and>
        distinct (map (\<lambda>i. slot h m seed' (ks ! i)) vs) \<and>
        (\<forall>i\<in>set vs. \<not> occ ! slot h m seed' (ks ! i) \<and> occ' ! slot h m seed' (ks ! i) \<and>
           lvl1' ! slot h m seed' (ks ! i) = word_of_nat i) \<and>
        (\<forall>k<length occ. occ' ! k = (occ ! k \<or> k \<in> (\<lambda>i. slot h m seed' (ks ! i)) ` set vs)) \<and>
        (\<forall>k<length occ. occ ! k \<longrightarrow> lvl1' ! k = lvl1 ! k) \<and>
        (\<forall>w\<in>set lvl1'. w \<in> set lvl1 \<or> (\<exists>i\<in>set vs. w = word_of_nat i)))"

section \<open>The key pool and the caller's memory\<close>

text \<open>
  Line 33, \<^verbatim>\<open>pool = append(pool, []byte(s))\<close>, with the memory made explicit. A byte
  slice of Go refers to a backing array; the store is the list of the backing arrays
  allocated so far and an address is a position in it. \<open>Build\<close> is generic in
  \<^verbatim>\<open>T string | []byte\<close>, and the conversion \<^verbatim>\<open>[]byte(s)\<close> differs between the two:
  from a \<^verbatim>\<open>string\<close> it allocates a new array that holds a copy of the bytes, from a
  \<^verbatim>\<open>[]byte\<close> it is the conversion of a type to itself and yields the same slice.
\<close>

type_synonym addr = nat
type_synonym store = "bytes list"

definition bytesOfString :: "store \<Rightarrow> bytes \<Rightarrow> store \<times> addr" where
  "bytesOfString st s = (st @ [s], length st)"

definition bytesOfBytes :: "store \<Rightarrow> addr \<Rightarrow> store \<times> addr" where
  "bytesOfBytes st a = (st, a)"

text \<open>The loop of lines 30-34, restricted to the pool, for \<^verbatim>\<open>T = string\<close>.\<close>

fun poolOfStrings :: "bytes list \<Rightarrow> store \<times> addr list \<Rightarrow> store \<times> addr list" where
  "poolOfStrings [] (st, pool) = (st, pool)"
| "poolOfStrings (s # ss) (st, pool) =
     (case bytesOfString st s of (st', a) \<Rightarrow> poolOfStrings ss (st', pool @ [a]))"

text \<open>The same loop for \<^verbatim>\<open>T = []byte\<close>; a key is the address of its backing array.\<close>

fun poolOfBytes :: "addr list \<Rightarrow> store \<times> addr list \<Rightarrow> store \<times> addr list" where
  "poolOfBytes [] (st, pool) = (st, pool)"
| "poolOfBytes (s # ss) (st, pool) =
     (case bytesOfBytes st s of (st', a) \<Rightarrow> poolOfBytes ss (st', pool @ [a]))"

text \<open>The bytes that the elements of a pool hold in a store.\<close>

definition poolContents :: "store \<Rightarrow> addr list \<Rightarrow> bytes list" where
  "poolContents st pool = map (\<lambda>a. st ! a) pool"

section \<open>Instances of the parameters for closed examples\<close>

text \<open>
  A seeded hash function in the style of FNV-1a, to evaluate the construction on concrete
  keys. It stands for \<^verbatim>\<open>murmurHash\<close> in the examples only; the theorems hold for every
  hash function.
\<close>

definition exampleHash :: hashfn where
  "exampleHash seed s =
     fold (\<lambda>c x. (x XOR of_char c) * 16777619) s (2166136261 + seed * 16777619)"

text \<open>
  Two sorting routines that meet \<open>sort_contract\<close>: a stable insertion sort, and the same sort
  applied to the reversed list, which puts buckets of equal size in the opposite order.
\<close>

definition stableSort :: "indexBucket list \<Rightarrow> indexBucket list" where
  "stableSort bs = sort_key (\<lambda>b. - int (length (vals b))) bs"


text \<open>The key lists of the examples, and the tables that \<open>Build\<close> returns for them.\<close>

abbreviation keys3 :: "bytes list" where
  "keys3 \<equiv> [''foo'', ''bar'', ''quux'']"

abbreviation table3 :: Table where
  "table3 \<equiv> \<lparr>keys = keys3, level0 = [1], level0Mask = 0, level1 = [0, 1, 1, 2], level1Mask = 3\<rparr>"

abbreviation keys5 :: "bytes list" where
  "keys5 \<equiv> [''a'', ''b'', ''c'', ''d'', ''e'']"

abbreviation table5 :: Table where
  "table5 \<equiv> \<lparr>keys = keys5, level0 = [0], level0Mask = 0,
     level1 = [4, 0, 2, 3, 0, 1, 0, 0], level1Mask = 7\<rparr>"


abbreviation emptyTable :: Table where
  "emptyTable \<equiv> \<lparr>keys = [], level0 = [0], level0Mask = 0, level1 = [0], level1Mask = 0\<rparr>"

section \<open>Properties of the construction\<close>

subsection \<open>Sizes, slots and marks\<close>

text \<open>
  \<open>nextPow2\<close> returns, from \<open>i = 1\<close>, the smallest power of two that is at least its
  argument; a slot is at most its mask and below \<open>2 ^ 32\<close>.
\<close>

lemma nextPow2_loop_returns:
  "0 < i \<Longrightarrow> \<exists>k. nextPow2_loop i n = Some (i * 2 ^ k) \<and> n \<le> i * 2 ^ k \<and> (0 < k \<longrightarrow> i * 2 ^ (k - 1) < n)"
proof (induction "n - i" arbitrary: i rule: less_induct)
  case less
  show ?case
  proof (cases "n \<le> i")
    case True
    then have "nextPow2_loop i n = Some (i * 2 ^ 0)"
      by (subst nextPow2_loop.simps) simp
    with True show ?thesis by (intro exI [of _ 0]) simp
  next
    case False
    with less.prems have "n - i * 2 < n - i" by simp
    from less.hyps [OF this] less.prems
    obtain k where k: "nextPow2_loop (i * 2) n = Some (i * 2 * 2 ^ k)" "n \<le> i * 2 * 2 ^ k"
      "0 < k \<longrightarrow> i * 2 * 2 ^ (k - 1) < n"
      by auto
    from False have unfold: "nextPow2_loop i n = nextPow2_loop (i * 2) n"
      by (subst nextPow2_loop.simps) simp
    have low: "i * 2 ^ (Suc k - 1) < n"
    proof (cases k)
      case 0
      with False show ?thesis by simp
    next
      case (Suc j)
      with k(3) show ?thesis by (simp add: mult.assoc)
    qed
    show ?thesis
      using k unfold low by (intro exI [of _ "Suc k"]) (simp add: mult.assoc)
  qed
qed

lemma nextPow2_returns:
  "\<exists>k. nextPow2 n = Some (2 ^ k) \<and> n \<le> 2 ^ k \<and> (0 < k \<longrightarrow> 2 ^ (k - 1) < n)"
  using nextPow2_loop_returns [of 1 n] by (simp add: nextPow2_def)

lemma nat_and_le1: "(x::nat) AND y \<le> x"
proof -
  have "nat (int x AND int y) \<le> nat (int x)" by (rule nat_mono) simp
  then show ?thesis by (simp only: and_nat_def nat_int)
qed

lemma nat_and_le2: "(x::nat) AND y \<le> y"
proof -
  have "nat (int x AND int y) \<le> nat (int y)" by (rule nat_mono) simp
  then show ?thesis by (simp only: and_nat_def nat_int)
qed

lemma slot_le_mask: "slot h m seed s \<le> m"
  unfolding slot_def by (rule nat_and_le2)

lemma slot_lt_2p32: "slot h m seed s < 2 ^ 32"
proof -
  have "slot h m seed s \<le> unat (h seed s)"
    unfolding slot_def by (rule nat_and_le1)
  moreover have "unat (h seed s) < 2 ^ 32"
    using unsigned_less [of "h seed s"] by simp
  ultimately show ?thesis by simp
qed

lemma nth_update_cases:
  "k < length xs \<Longrightarrow> xs[a := v] ! k = (if k = a then v else xs ! k)"
  by (cases "a < length xs") auto

lemma length_unmark: "length (unmark tmp occ) = length occ"
  by (induction tmp arbitrary: occ) auto

lemma nth_unmark:
  "k < length occ \<Longrightarrow> unmark tmp occ ! k = (occ ! k \<and> k \<notin> set tmp)"
  by (induction tmp arbitrary: occ) (auto simp: nth_update_cases)

subsection \<open>One trial of a seed\<close>

text \<open>
  A trial never writes to a slot that was occupied before it. A failed trial leaves
  \<^verbatim>\<open>occ\<close> as it was; a successful one has found distinct free slots for the bucket.
\<close>

lemma tryVals_length:
  "tryVals h ks m seed vs (occ, tmp, lvl1) = (ok, occ', tmp', lvl1') \<Longrightarrow>
   length occ' = length occ \<and> length lvl1' = length lvl1"
proof (induction vs arbitrary: occ tmp lvl1)
  case Nil
  then show ?case by simp
next
  case (Cons i vs)
  show ?case
  proof (cases "occ ! slot h m seed (ks ! i)")
    case True
    with Cons.prems show ?thesis by (auto simp: length_unmark)
  next
    case False
    with Cons.prems Cons.IH [of "occ[slot h m seed (ks ! i) := True]" "tmp @ [slot h m seed (ks ! i)]"
        "lvl1[slot h m seed (ks ! i) := word_of_nat i]"]
    show ?thesis by (simp add: Let_def)
  qed
qed

lemma tryVals_frame:
  "tryVals h ks m seed vs (occ, tmp, lvl1) = (ok, occ', tmp', lvl1') \<Longrightarrow>
   occ ! k \<Longrightarrow> k < length occ \<Longrightarrow> lvl1' ! k = lvl1 ! k"
proof (induction vs arbitrary: occ tmp lvl1)
  case Nil
  then show ?case by simp
next
  case (Cons i vs)
  let ?n = "slot h m seed (ks ! i)"
  show ?case
  proof (cases "occ ! ?n")
    case True
    with Cons.prems show ?thesis by simp
  next
    case False
    with Cons.prems(2) have neq: "k \<noteq> ?n" by auto
    from False Cons.prems(1)
    have rec: "tryVals h ks m seed vs (occ[?n := True], tmp @ [?n], lvl1[?n := word_of_nat i]) =
        (ok, occ', tmp', lvl1')"
      by (simp add: Let_def)
    have "lvl1' ! k = lvl1[?n := word_of_nat i] ! k"
      using Cons.IH [OF rec] Cons.prems(2,3) neq by (simp add: nth_update_cases)
    with neq show ?thesis by simp
  qed
qed

lemma tryVals_entries:
  "tryVals h ks m seed vs (occ, tmp, lvl1) = (ok, occ', tmp', lvl1') \<Longrightarrow>
   w \<in> set lvl1' \<Longrightarrow> w \<in> set lvl1 \<or> (\<exists>i\<in>set vs. w = word_of_nat i)"
proof (induction vs arbitrary: occ tmp lvl1)
  case Nil
  then show ?case by simp
next
  case (Cons i vs)
  let ?n = "slot h m seed (ks ! i)"
  show ?case
  proof (cases "occ ! ?n")
    case True
    with Cons.prems show ?thesis by simp
  next
    case False
    from False Cons.prems(1)
    have rec: "tryVals h ks m seed vs (occ[?n := True], tmp @ [?n], lvl1[?n := word_of_nat i]) =
        (ok, occ', tmp', lvl1')"
      by (simp add: Let_def)
    from Cons.IH [OF rec Cons.prems(2)]
    have "w \<in> set (lvl1[?n := word_of_nat i]) \<or> (\<exists>j\<in>set vs. w = word_of_nat j)" .
    moreover have "set (lvl1[?n := word_of_nat i]) \<subseteq> insert (word_of_nat i) (set lvl1)"
      by (rule set_update_subset_insert)
    ultimately show ?thesis by auto
  qed
qed

lemma tryVals_fail:
  "tryVals h ks m seed vs (occ, tmp, lvl1) = (False, occ', tmp', lvl1') \<Longrightarrow>
   k < length occ \<Longrightarrow> occ' ! k = (occ ! k \<and> k \<notin> set tmp)"
proof (induction vs arbitrary: occ tmp lvl1)
  case Nil
  then show ?case by simp
next
  case (Cons i vs)
  let ?n = "slot h m seed (ks ! i)"
  show ?case
  proof (cases "occ ! ?n")
    case True
    with Cons.prems show ?thesis by (auto simp: nth_unmark)
  next
    case False
    from False Cons.prems(1)
    have rec: "tryVals h ks m seed vs (occ[?n := True], tmp @ [?n], lvl1[?n := word_of_nat i]) =
        (False, occ', tmp', lvl1')"
      by (simp add: Let_def)
    have "occ' ! k = (occ[?n := True] ! k \<and> k \<notin> set (tmp @ [?n]))"
      using Cons.IH [OF rec] Cons.prems(2) by simp
    with False Cons.prems(2) show ?thesis by (auto simp: nth_update_cases)
  qed
qed

lemma tryVals_fail_restores:
  assumes "tryVals h ks m seed vs (occ, [], lvl1) = (False, occ', tmp', lvl1')"
  shows "occ' = occ"
proof (rule nth_equalityI)
  show "length occ' = length occ" using tryVals_length [OF assms] by simp
next
  fix k assume "k < length occ'"
  then have "k < length occ" using tryVals_length [OF assms] by simp
  then show "occ' ! k = occ ! k" using tryVals_fail [OF assms] by simp
qed

lemma tryVals_ok:
  "tryVals h ks m seed vs (occ, tmp, lvl1) = (True, occ', tmp', lvl1') \<Longrightarrow>
   m < length occ \<Longrightarrow> length lvl1 = length occ \<Longrightarrow>
   distinct (map (\<lambda>i. slot h m seed (ks ! i)) vs) \<and>
   (\<forall>i\<in>set vs. \<not> occ ! slot h m seed (ks ! i) \<and> occ' ! slot h m seed (ks ! i) \<and>
       lvl1' ! slot h m seed (ks ! i) = word_of_nat i) \<and>
   (\<forall>k<length occ. occ' ! k = (occ ! k \<or> k \<in> (\<lambda>i. slot h m seed (ks ! i)) ` set vs))"
proof (induction vs arbitrary: occ tmp lvl1)
  case Nil
  then show ?case by simp
next
  case (Cons i vs)
  let ?sl = "\<lambda>i. slot h m seed (ks ! i)"
  let ?n = "?sl i"
  have n_lt: "?n < length occ"
    using slot_le_mask [of h m seed "ks ! i"] Cons.prems(2) by simp
  have free: "\<not> occ ! ?n"
    using Cons.prems(1) by (auto simp: Let_def split: if_splits)
  with Cons.prems(1)
  have rec: "tryVals h ks m seed vs (occ[?n := True], tmp @ [?n], lvl1[?n := word_of_nat i]) =
      (True, occ', tmp', lvl1')"
    by (simp add: Let_def)
  from Cons.IH [OF rec] Cons.prems(2,3)
  have d: "distinct (map ?sl vs)"
    and each: "\<forall>j\<in>set vs. \<not> occ[?n := True] ! ?sl j \<and> occ' ! ?sl j \<and> lvl1' ! ?sl j = word_of_nat j"
    and all: "\<forall>k<length occ. occ' ! k = (occ[?n := True] ! k \<or> k \<in> ?sl ` set vs)"
    by simp_all
  have others: "?sl j \<noteq> ?n \<and> \<not> occ ! ?sl j" if "j \<in> set vs" for j
  proof -
    from each that have a: "\<not> occ[?n := True] ! ?sl j" by blast
    have "?sl j < length occ"
      using slot_le_mask [of h m seed "ks ! j"] Cons.prems(2) by simp
    with a n_lt show ?thesis by (auto simp: nth_update_cases split: if_splits)
  qed
  have occ_n: "occ' ! ?n"
    using all n_lt by simp
  have "lvl1' ! ?n = lvl1[?n := word_of_nat i] ! ?n"
    by (rule tryVals_frame [OF rec]) (use n_lt in simp_all)
  then have val_n: "lvl1' ! ?n = word_of_nat i"
    using n_lt Cons.prems(3) by simp
  have notin: "?n \<notin> ?sl ` set vs"
  proof
    assume "?n \<in> ?sl ` set vs"
    then obtain j where "j \<in> set vs" "?sl j = ?n" by (auto simp: image_iff)
    with others [of j] show False by simp
  qed
  have 1: "distinct (map ?sl (i # vs))"
    using d notin by simp
  have 2: "\<forall>j\<in>set (i # vs). \<not> occ ! ?sl j \<and> occ' ! ?sl j \<and> lvl1' ! ?sl j = word_of_nat j"
    using free occ_n val_n each others by auto
  have 3: "\<forall>k<length occ. occ' ! k = (occ ! k \<or> k \<in> ?sl ` set (i # vs))"
    using all by (auto simp: nth_update_cases)
  from 1 2 3 show ?case by blast
qed

subsection \<open>The seed search\<close>

text \<open>
  Fixpoint induction on the search: whatever it returns satisfies \<open>trySeed_post\<close>.
\<close>

lemma trySeed_post_aux:
  assumes "trySeed h ks m seed vs occ lvl1 = Some r"
  shows "m < length occ \<longrightarrow> length lvl1 = length occ \<longrightarrow> trySeed_post h ks m vs occ lvl1 r"
proof (rule trySeed.raw_induct [where P = "\<lambda>h ks m seed vs occ lvl1 r.
    m < length occ \<longrightarrow> length lvl1 = length occ \<longrightarrow> trySeed_post h ks m vs occ lvl1 r", OF _ assms])
  fix rec :: "hashfn \<Rightarrow> bytes list \<Rightarrow> nat \<Rightarrow> murmurSeed \<Rightarrow> nat list \<Rightarrow> bool list \<Rightarrow> uint32 list \<Rightarrow>
    (murmurSeed \<times> bool list \<times> uint32 list) option"
  fix h ks m seed vs occ lvl1 r
  assume IH: "\<And>h ks m seed vs occ lvl1 r. rec h ks m seed vs occ lvl1 = Some r \<Longrightarrow>
      m < length occ \<longrightarrow> length lvl1 = length occ \<longrightarrow> trySeed_post h ks m vs occ lvl1 r"
    and body: "(case tryVals h ks m seed vs (occ, [], lvl1) of
        (ok, occ', tmpOcc, lvl1') \<Rightarrow>
          if ok then Some (seed, occ', lvl1') else rec h ks m (seed + 1) vs occ' lvl1') = Some r"
  obtain ok occ1 tmp1 lvl11 where tv: "tryVals h ks m seed vs (occ, [], lvl1) = (ok, occ1, tmp1, lvl11)"
    by (metis prod_cases4)
  note len = tryVals_length [OF tv]
  show "m < length occ \<longrightarrow> length lvl1 = length occ \<longrightarrow> trySeed_post h ks m vs occ lvl1 r"
  proof (intro impI)
    assume m: "m < length occ" and l: "length lvl1 = length occ"
    show "trySeed_post h ks m vs occ lvl1 r"
    proof (cases ok)
      case True
      with body tv have r: "r = (seed, occ1, lvl11)" by simp
      from tv True have tv': "tryVals h ks m seed vs (occ, [], lvl1) = (True, occ1, tmp1, lvl11)"
        by simp
      show ?thesis
        unfolding trySeed_post_def r
        using tryVals_ok [OF tv' m l] len tryVals_frame [OF tv] tryVals_entries [OF tv]
        by simp
    next
      case False
      with tv have tv': "tryVals h ks m seed vs (occ, [], lvl1) = (False, occ1, tmp1, lvl11)"
        by simp
      have occ1: "occ1 = occ" by (rule tryVals_fail_restores [OF tv'])
      from body tv False have "rec h ks m (seed + 1) vs occ1 lvl11 = Some r" by simp
      from IH [OF this] m l len occ1
      have post: "trySeed_post h ks m vs occ lvl11 r" by simp
      obtain seed' occ' lvl1' where r: "r = (seed', occ', lvl1')" by (cases r) auto
      have fr: "\<forall>k<length occ. occ ! k \<longrightarrow> lvl1' ! k = lvl1 ! k"
        using post tryVals_frame [OF tv] unfolding trySeed_post_def r by simp
      have en: "\<forall>w\<in>set lvl1'. w \<in> set lvl1 \<or> (\<exists>i\<in>set vs. w = word_of_nat i)"
      proof
        fix w assume "w \<in> set lvl1'"
        with post have "w \<in> set lvl11 \<or> (\<exists>i\<in>set vs. w = word_of_nat i)"
          unfolding trySeed_post_def r by simp
        with tryVals_entries [OF tv, of w]
        show "w \<in> set lvl1 \<or> (\<exists>i\<in>set vs. w = word_of_nat i)" by blast
      qed
      show ?thesis
        using post fr en len l unfolding trySeed_post_def r by simp
    qed
  qed
qed

lemma trySeed_Some:
  "trySeed h ks m seed vs occ lvl1 = Some r \<Longrightarrow> m < length occ \<Longrightarrow> length lvl1 = length occ \<Longrightarrow>
   trySeed_post h ks m vs occ lvl1 r"
  using trySeed_post_aux [of h ks m seed vs occ lvl1 r] by blast

text \<open>The search as a code equation, with the components of the trial selected.\<close>

lemma trySeed_code [code]:
  "trySeed h ks m seed vs occ lvl1 =
     (let r = tryVals h ks m seed vs (occ, [], lvl1)
      in if fst r then Some (seed, fst (snd r), snd (snd (snd r)))
         else trySeed h ks m (seed + 1) vs (fst (snd r)) (snd (snd (snd r))))"
  by (subst trySeed.simps) (simp add: Let_def split: prod.split)

subsection \<open>The loop over the buckets\<close>

text \<open>
  The loop keeps what earlier buckets have placed, and places every key of its buckets in a
  slot of its own.
\<close>

lemma placeBuckets_Cons_Some:
  assumes "placeBuckets h ks m (b # bs) (lvl0, occ, lvl1) = Some r"
  obtains seed occ1 lvl11 where
    "trySeed h ks m 0 (vals b) occ lvl1 = Some (seed, occ1, lvl11)"
    "placeBuckets h ks m bs (lvl0[bucket_n b := seed], occ1, lvl11) = Some r"
  using assms by (auto split: option.splits)

lemma placeBuckets_basic:
  "placeBuckets h ks m bs (lvl0, occ, lvl1) = Some (lvl0', occ', lvl1') \<Longrightarrow>
   m < length occ \<Longrightarrow> length lvl1 = length occ \<Longrightarrow>
   length lvl0' = length lvl0 \<and> length occ' = length occ \<and> length lvl1' = length lvl1 \<and>
   (\<forall>k<length occ. occ ! k \<longrightarrow> occ' ! k \<and> lvl1' ! k = lvl1 ! k) \<and>
   (\<forall>k. k \<notin> bucket_n ` set bs \<longrightarrow> lvl0' ! k = lvl0 ! k) \<and>
   (\<forall>w\<in>set lvl1'. w \<in> set lvl1 \<or> (\<exists>b\<in>set bs. \<exists>i\<in>set (vals b). w = word_of_nat i))"
proof (induction bs arbitrary: lvl0 occ lvl1)
  case Nil
  then show ?case by simp
next
  case (Cons b bs)
  from Cons.prems(1) obtain seed occ1 lvl11 where
    ts: "trySeed h ks m 0 (vals b) occ lvl1 = Some (seed, occ1, lvl11)" and
    rest: "placeBuckets h ks m bs (lvl0[bucket_n b := seed], occ1, lvl11) = Some (lvl0', occ', lvl1')"
    by (rule placeBuckets_Cons_Some)
  have post: "trySeed_post h ks m (vals b) occ lvl1 (seed, occ1, lvl11)"
    by (rule trySeed_Some [OF ts Cons.prems(2,3)])
  then have len1: "length occ1 = length occ" "length lvl11 = length lvl1"
    and grow: "\<forall>k<length occ. occ1 ! k = (occ ! k \<or> k \<in> (\<lambda>i. slot h m seed (ks ! i)) ` set (vals b))"
    and keep: "\<forall>k<length occ. occ ! k \<longrightarrow> lvl11 ! k = lvl1 ! k"
    and ent: "\<forall>w\<in>set lvl11. w \<in> set lvl1 \<or> (\<exists>i\<in>set (vals b). w = word_of_nat i)"
    unfolding trySeed_post_def by simp_all
  have m1: "m < length occ1" and l1: "length lvl11 = length occ1"
    using len1 Cons.prems(2,3) by simp_all
  from Cons.IH [OF rest m1 l1]
  have ih_len: "length lvl0' = length lvl0" "length occ' = length occ" "length lvl1' = length lvl1"
    and ih_keep: "\<forall>k<length occ. occ1 ! k \<longrightarrow> occ' ! k \<and> lvl1' ! k = lvl11 ! k"
    and ih_lvl0: "\<forall>k. k \<notin> bucket_n ` set bs \<longrightarrow> lvl0' ! k = lvl0[bucket_n b := seed] ! k"
    and ih_ent: "\<forall>w\<in>set lvl1'. w \<in> set lvl11 \<or> (\<exists>b\<in>set bs. \<exists>i\<in>set (vals b). w = word_of_nat i)"
    using len1 by simp_all
  have 1: "\<forall>k<length occ. occ ! k \<longrightarrow> occ' ! k \<and> lvl1' ! k = lvl1 ! k"
    using grow keep ih_keep by simp
  have 2: "\<forall>k. k \<notin> bucket_n ` set (b # bs) \<longrightarrow> lvl0' ! k = lvl0 ! k"
    using ih_lvl0 by simp
  have 3: "\<forall>w\<in>set lvl1'. w \<in> set lvl1 \<or> (\<exists>b\<in>set (b # bs). \<exists>i\<in>set (vals b). w = word_of_nat i)"
  proof
    fix w assume "w \<in> set lvl1'"
    with ih_ent have "w \<in> set lvl11 \<or> (\<exists>b\<in>set bs. \<exists>i\<in>set (vals b). w = word_of_nat i)" by simp
    with ent show "w \<in> set lvl1 \<or> (\<exists>b\<in>set (b # bs). \<exists>i\<in>set (vals b). w = word_of_nat i)"
      by auto
  qed
  from ih_len 1 2 3 show ?case by simp
qed

lemma placeBuckets_keys:
  "placeBuckets h ks m1 bs (lvl0, occ, lvl1) = Some (lvl0', occ', lvl1') \<Longrightarrow>
   m1 < length occ \<Longrightarrow> length lvl1 = length occ \<Longrightarrow>
   distinct (map bucket_n bs) \<Longrightarrow>
   \<forall>b\<in>set bs. bucket_n b < length lvl0 \<and> (\<forall>i\<in>set (vals b). slot h m0 0 (ks ! i) = bucket_n b) \<Longrightarrow>
   (\<forall>i\<in>(\<Union>b\<in>set bs. set (vals b)).
      \<not> occ ! keySlot h ks m0 m1 lvl0' i \<and> occ' ! keySlot h ks m0 m1 lvl0' i \<and>
      lvl1' ! keySlot h ks m0 m1 lvl0' i = word_of_nat i) \<and>
   inj_on (keySlot h ks m0 m1 lvl0') (\<Union>b\<in>set bs. set (vals b)) \<and>
   (\<forall>k<length occ. occ' ! k \<longrightarrow> occ ! k \<or> k \<in> keySlot h ks m0 m1 lvl0' ` (\<Union>b\<in>set bs. set (vals b)))"
proof (induction bs arbitrary: lvl0 occ lvl1)
  case Nil
  then show ?case by simp
next
  case (Cons b bs)
  let ?sl = "keySlot h ks m0 m1 lvl0'"
  let ?I = "\<Union>b\<in>set bs. set (vals b)"
  from Cons.prems(1) obtain seed occ1 lvl11 where
    ts: "trySeed h ks m1 0 (vals b) occ lvl1 = Some (seed, occ1, lvl11)" and
    rest: "placeBuckets h ks m1 bs (lvl0[bucket_n b := seed], occ1, lvl11) = Some (lvl0', occ', lvl1')"
    by (rule placeBuckets_Cons_Some)
  have post: "trySeed_post h ks m1 (vals b) occ lvl1 (seed, occ1, lvl11)"
    by (rule trySeed_Some [OF ts Cons.prems(2,3)])
  then have len1: "length occ1 = length occ" "length lvl11 = length lvl1"
    and dist: "distinct (map (\<lambda>i. slot h m1 seed (ks ! i)) (vals b))"
    and each: "\<forall>i\<in>set (vals b). \<not> occ ! slot h m1 seed (ks ! i) \<and> occ1 ! slot h m1 seed (ks ! i) \<and>
         lvl11 ! slot h m1 seed (ks ! i) = word_of_nat i"
    and grow: "\<forall>k<length occ. occ1 ! k = (occ ! k \<or> k \<in> (\<lambda>i. slot h m1 seed (ks ! i)) ` set (vals b))"
    unfolding trySeed_post_def by simp_all
  have m1: "m1 < length occ1" and l1: "length lvl11 = length occ1"
    using len1 Cons.prems(2,3) by simp_all
  have basic: "(\<forall>k<length occ1. occ1 ! k \<longrightarrow> occ' ! k \<and> lvl1' ! k = lvl11 ! k) \<and>
      (\<forall>k. k \<notin> bucket_n ` set bs \<longrightarrow> lvl0' ! k = lvl0[bucket_n b := seed] ! k)"
    using placeBuckets_basic [OF rest m1 l1] by simp
  have "bucket_n b \<notin> bucket_n ` set bs" "bucket_n b < length lvl0"
    using Cons.prems(4,5) by simp_all
  with basic have seed_b: "lvl0' ! bucket_n b = seed" by simp
  have sl_b: "?sl i = slot h m1 seed (ks ! i)" if "i \<in> set (vals b)" for i
    using that Cons.prems(5) seed_b by (simp add: keySlot_def)
  have in_range: "slot h m1 s k < length occ" for s k
    using slot_le_mask [of h m1 s k] Cons.prems(2) by simp
  have d': "distinct (map bucket_n bs)"
    and b': "\<forall>b\<in>set bs. bucket_n b < length (lvl0[bucket_n b := seed]) \<and>
        (\<forall>i\<in>set (vals b). slot h m0 0 (ks ! i) = bucket_n b)"
    using Cons.prems(4,5) by simp_all
  from Cons.IH [OF rest m1 l1 d']
  have ih_each: "\<forall>i\<in>?I. \<not> occ1 ! ?sl i \<and> occ' ! ?sl i \<and> lvl1' ! ?sl i = word_of_nat i"
    and ih_inj: "inj_on ?sl ?I"
    and ih_occ: "\<forall>k<length occ. occ' ! k \<longrightarrow> occ1 ! k \<or> k \<in> ?sl ` ?I"
    using Cons.prems(5) len1 by simp_all
  have sl_range: "?sl i < length occ" for i
    unfolding keySlot_def by (rule in_range)
  have head: "\<not> occ ! ?sl i \<and> occ1 ! ?sl i \<and> occ' ! ?sl i \<and> lvl1' ! ?sl i = word_of_nat i"
    if "i \<in> set (vals b)" for i
  proof -
    from each that sl_b [OF that]
    have a: "\<not> occ ! ?sl i" "occ1 ! ?sl i" "lvl11 ! ?sl i = word_of_nat i" by simp_all
    with basic sl_range [of i] len1 show ?thesis by simp
  qed
  have tail: "\<not> occ ! ?sl i \<and> \<not> occ1 ! ?sl i \<and> occ' ! ?sl i \<and> lvl1' ! ?sl i = word_of_nat i"
    if "i \<in> ?I" for i
  proof -
    from ih_each that have a: "\<not> occ1 ! ?sl i" "occ' ! ?sl i" "lvl1' ! ?sl i = word_of_nat i"
      by blast+
    with grow sl_range [of i] show ?thesis by simp
  qed
  have inj_b: "inj_on ?sl (set (vals b))"
  proof (rule inj_onI)
    fix i j assume ij: "i \<in> set (vals b)" "j \<in> set (vals b)" "?sl i = ?sl j"
    then have "slot h m1 seed (ks ! i) = slot h m1 seed (ks ! j)" using sl_b by simp
    with dist ij(1,2) show "i = j" by (simp add: distinct_map inj_on_def)
  qed
  have disj: "?sl i \<noteq> ?sl j" if "i \<in> set (vals b)" "j \<in> ?I" for i j
    using head [OF that(1)] tail [OF that(2)] by auto
  have inj: "inj_on ?sl (set (vals b) \<union> ?I)"
    using inj_b ih_inj disj by (auto simp: inj_on_Un)
  have I_eq: "(\<Union>c\<in>set (b # bs). set (vals c)) = set (vals b) \<union> ?I" by simp
  have 1: "\<forall>i\<in>set (vals b) \<union> ?I. \<not> occ ! ?sl i \<and> occ' ! ?sl i \<and> lvl1' ! ?sl i = word_of_nat i"
    using head tail by blast
  have 3: "\<forall>k<length occ. occ' ! k \<longrightarrow> occ ! k \<or> k \<in> ?sl ` (set (vals b) \<union> ?I)"
  proof (intro allI impI)
    fix k assume k: "k < length occ" "occ' ! k"
    with ih_occ have "occ1 ! k \<or> k \<in> ?sl ` ?I" by simp
    then show "occ ! k \<or> k \<in> ?sl ` (set (vals b) \<union> ?I)"
    proof
      assume "occ1 ! k"
      with grow k(1) have "occ ! k \<or> k \<in> (\<lambda>i. slot h m1 seed (ks ! i)) ` set (vals b)" by simp
      then show ?thesis
      proof
        assume "occ ! k" then show ?thesis by simp
      next
        assume "k \<in> (\<lambda>i. slot h m1 seed (ks ! i)) ` set (vals b)"
        then obtain i where i: "i \<in> set (vals b)" "k = slot h m1 seed (ks ! i)" by blast
        with sl_b [OF i(1)] have "k = ?sl i" by simp
        with i(1) show ?thesis by blast
      qed
    next
      assume "k \<in> ?sl ` ?I"
      then show ?thesis by blast
    qed
  qed
  show ?case unfolding I_eq using 1 inj 3 by blast
qed

subsection \<open>Partition, collection and sorting of the buckets\<close>

text \<open>
  The buckets that reach the loop: one per non-empty value of the level-0 hash, holding
  exactly the indices of the keys with that value.
\<close>

lemma partitionKeys_pool:
  "snd (partitionKeys h m ks i (sp, pool)) = pool @ ks"
  by (induction ks arbitrary: i sp pool) (simp_all add: Let_def)

lemma partitionKeys_length:
  "length (fst (partitionKeys h m ks i (sp, pool))) = length sp"
  by (induction ks arbitrary: i sp pool) (simp_all add: Let_def)

lemma partitionKeys_set:
  "b < length sp \<Longrightarrow>
   set (fst (partitionKeys h m ks i (sp, pool)) ! b) =
     set (sp ! b) \<union> {j. i \<le> j \<and> j < i + length ks \<and> slot h m 0 (ks ! (j - i)) = b}"
proof (induction ks arbitrary: i sp pool)
  case Nil
  then show ?case by auto
next
  case (Cons s ss)
  let ?n = "slot h m 0 s"
  let ?sp = "sp[?n := sp ! ?n @ [i]]"
  have step: "fst (partitionKeys h m (s # ss) i (sp, pool)) =
      fst (partitionKeys h m ss (i + 1) (?sp, pool @ [s]))"
    by (simp add: Let_def)
  have b: "b < length ?sp" using Cons.prems by simp
  have head: "set (?sp ! b) = set (sp ! b) \<union> (if b = ?n then {i} else {})"
    using Cons.prems by (auto simp: nth_update_cases)
  have split: "{j. i \<le> j \<and> j < i + length (s # ss) \<and> slot h m 0 ((s # ss) ! (j - i)) = b} =
      (if b = ?n then {i} else {}) \<union>
      {j. i + 1 \<le> j \<and> j < i + 1 + length ss \<and> slot h m 0 (ss ! (j - (i + 1))) = b}"
    (is "?L = ?R")
  proof (rule set_eqI)
    fix j
    show "j \<in> ?L \<longleftrightarrow> j \<in> ?R"
    proof (cases "j = i")
      case True
      then show ?thesis by auto
    next
      case False
      then have "i \<le> j \<Longrightarrow> (s # ss) ! (j - i) = ss ! (j - (i + 1))"
        by (simp add: nth_Cons')
      with False show ?thesis by auto
    qed
  qed
  show ?case
    unfolding step Cons.IH [OF b] head split by auto
qed

lemma collectBuckets_eq:
  "collectBuckets sp n acc =
     acc @ map (\<lambda>(j, v). \<lparr>bucket_n = j, vals = v\<rparr>) (filter (\<lambda>(j, v). v \<noteq> []) (enumerate n sp))"
  by (induction sp arbitrary: n acc) simp_all

lemma collectBuckets_set:
  "set (collectBuckets sp 0 []) = {\<lparr>bucket_n = j, vals = sp ! j\<rparr> | j. j < length sp \<and> sp ! j \<noteq> []}"
  unfolding collectBuckets_eq
  by (auto simp: in_set_enumerate_eq image_iff)

lemma collectBuckets_distinct:
  "distinct (map bucket_n (collectBuckets sp 0 []))"
proof -
  have "map bucket_n (collectBuckets sp 0 []) = map fst (filter (\<lambda>(j, v). v \<noteq> []) (enumerate 0 sp))"
    unfolding collectBuckets_eq by (simp add: case_prod_unfold comp_def)
  moreover have "distinct (map fst (enumerate 0 sp))" by simp
  ultimately show ?thesis by (simp add: distinct_map_filter)
qed

lemma sort_contract_set: "sort_contract srt \<Longrightarrow> set (srt bs) = set bs"
  unfolding sort_contract_def by (metis set_mset_mset)

lemma sort_contract_distinct:
  assumes "sort_contract srt" "distinct (map f bs)"
  shows "distinct (map f (srt bs))"
proof -
  from assms(1) have "mset (srt bs) = mset bs" unfolding sort_contract_def by simp
  then have "mset (map f (srt bs)) = mset (map f bs)" by simp
  with assms(2) show ?thesis by (metis mset_eq_imp_distinct_iff)
qed

lemma sortedBuckets_props:
  assumes c: "sort_contract srt" and l0: "0 < l0"
  shows "distinct (map bucket_n (sortedBuckets srt h ks l0))"
    and "b \<in> set (sortedBuckets srt h ks l0) \<Longrightarrow>
           bucket_n b < l0 \<and> vals b \<noteq> [] \<and>
           set (vals b) = {i. i < length ks \<and> slot h (l0 - 1) 0 (ks ! i) = bucket_n b}"
    and "(\<Union>b\<in>set (sortedBuckets srt h ks l0). set (vals b)) = {..<length ks}"
proof -
  let ?sp = "fst (partitionKeys h (l0 - 1) ks 0 (replicate l0 [], []))"
  have len: "length ?sp = l0" by (simp add: partitionKeys_length)
  have sp: "set (?sp ! j) = {i. i < length ks \<and> slot h (l0 - 1) 0 (ks ! i) = j}" if "j < l0" for j
    using partitionKeys_set [of j "replicate l0 []" h "l0 - 1" ks 0 "[]"] that by simp
  have set_eq: "set (sortedBuckets srt h ks l0) =
      {\<lparr>bucket_n = j, vals = ?sp ! j\<rparr> | j. j < l0 \<and> ?sp ! j \<noteq> []}"
    unfolding sortedBuckets_def sort_contract_set [OF c] collectBuckets_set len ..
  show "distinct (map bucket_n (sortedBuckets srt h ks l0))"
    unfolding sortedBuckets_def by (rule sort_contract_distinct [OF c collectBuckets_distinct])
  show "bucket_n b < l0 \<and> vals b \<noteq> [] \<and>
        set (vals b) = {i. i < length ks \<and> slot h (l0 - 1) 0 (ks ! i) = bucket_n b}"
    if "b \<in> set (sortedBuckets srt h ks l0)"
  proof -
    from that set_eq obtain j where j: "j < l0" "?sp ! j \<noteq> []" "b = \<lparr>bucket_n = j, vals = ?sp ! j\<rparr>"
      by auto
    then show ?thesis using sp [OF j(1)] by simp
  qed
  show "(\<Union>b\<in>set (sortedBuckets srt h ks l0). set (vals b)) = {..<length ks}"
  proof (rule set_eqI)
    fix i
    show "i \<in> (\<Union>b\<in>set (sortedBuckets srt h ks l0). set (vals b)) \<longleftrightarrow> i \<in> {..<length ks}"
    proof
      assume "i \<in> (\<Union>b\<in>set (sortedBuckets srt h ks l0). set (vals b))"
      then obtain j where "j < l0" "i \<in> set (?sp ! j)" unfolding set_eq by auto
      with sp show "i \<in> {..<length ks}" by simp
    next
      assume i: "i \<in> {..<length ks}"
      let ?j = "slot h (l0 - 1) 0 (ks ! i)"
      have j: "?j < l0" using slot_le_mask [of h "l0 - 1" 0 "ks ! i"] l0 by simp
      with i sp have mem: "i \<in> set (?sp ! ?j)" by simp
      then have "?sp ! ?j \<noteq> []" by auto
      with j have "\<lparr>bucket_n = ?j, vals = ?sp ! ?j\<rparr> \<in> set (sortedBuckets srt h ks l0)"
        unfolding set_eq by blast
      with mem show "i \<in> (\<Union>b\<in>set (sortedBuckets srt h ks l0). set (vals b))"
        by force
    qed
  qed
qed

subsection \<open>The table that Build returns\<close>

text \<open>
  The invariants of a returned table. The slots are injective into the values of a 32-bit
  hash, so \<open>Build\<close> returns on at most \<open>2 ^ 32\<close> keys, and only on distinct ones.
\<close>

lemma nextPow2_pos: "nextPow2 n = Some p \<Longrightarrow> 0 < p"
  using nextPow2_returns [of n] by auto

lemma Build_SomeE:
  assumes "Build srt h ks = Some t"
  obtains l0 l1 lv0 occ lv1 where
    "nextPow2 (length ks div 4) = Some l0"
    "nextPow2 (length ks) = Some l1"
    "placeBuckets h ks (l1 - 1) (sortedBuckets srt h ks l0)
       (replicate l0 0, replicate l1 False, replicate l1 0) = Some (lv0, occ, lv1)"
    "t = \<lparr>keys = ks, level0 = lv0, level0Mask = l0 - 1, level1 = lv1, level1Mask = l1 - 1\<rparr>"
  using assms unfolding Build_def
  by (auto simp: partitionKeys_pool Let_def split: option.splits)

lemma Build_sizes:
  assumes "Build srt h ks = Some t"
  shows "keys t = ks"
    and "nextPow2 (length ks div 4) = Some (length (level0 t))"
    and "nextPow2 (length ks) = Some (length (level1 t))"
    and "level0Mask t = length (level0 t) - 1"
    and "level1Mask t = length (level1 t) - 1"
proof -
  from assms obtain l0 l1 lv0 occ lv1 where
    l0: "nextPow2 (length ks div 4) = Some l0" and
    l1: "nextPow2 (length ks) = Some l1" and
    pb: "placeBuckets h ks (l1 - 1) (sortedBuckets srt h ks l0)
       (replicate l0 0, replicate l1 False, replicate l1 0) = Some (lv0, occ, lv1)" and
    t: "t = \<lparr>keys = ks, level0 = lv0, level0Mask = l0 - 1, level1 = lv1, level1Mask = l1 - 1\<rparr>"
    by (rule Build_SomeE)
  have "l1 - 1 < length (replicate l1 False)" using nextPow2_pos [OF l1] by simp
  from placeBuckets_basic [OF pb this]
  have len: "length lv0 = l0" "length lv1 = l1" by simp_all
  show "keys t = ks" by (simp add: t)
  show "nextPow2 (length ks div 4) = Some (length (level0 t))" by (simp add: t len l0)
  show "nextPow2 (length ks) = Some (length (level1 t))" by (simp add: t len l1)
  show "level0Mask t = length (level0 t) - 1" by (simp add: t len)
  show "level1Mask t = length (level1 t) - 1" by (simp add: t len)
qed

lemma Build_core:
  assumes B: "Build srt h ks = Some t" and c: "sort_contract srt"
  shows "\<forall>i<length ks.
           level1 t ! keySlot h ks (level0Mask t) (level1Mask t) (level0 t) i = word_of_nat i"
    and "inj_on (keySlot h ks (level0Mask t) (level1Mask t) (level0 t)) {..<length ks}"
    and "\<forall>w\<in>set (level1 t). w = 0 \<or> (\<exists>i<length ks. w = word_of_nat i)"
proof -
  from B obtain l0 l1 lv0 occ lv1 where
    l0: "nextPow2 (length ks div 4) = Some l0" and
    l1: "nextPow2 (length ks) = Some l1" and
    pb: "placeBuckets h ks (l1 - 1) (sortedBuckets srt h ks l0)
       (replicate l0 0, replicate l1 False, replicate l1 0) = Some (lv0, occ, lv1)" and
    t: "t = \<lparr>keys = ks, level0 = lv0, level0Mask = l0 - 1, level1 = lv1, level1Mask = l1 - 1\<rparr>"
    by (rule Build_SomeE)
  let ?bs = "sortedBuckets srt h ks l0"
  have l0_pos: "0 < l0" by (rule nextPow2_pos [OF l0])
  have m1: "l1 - 1 < length (replicate l1 False)" using nextPow2_pos [OF l1] by simp
  have len1: "length (replicate l1 (0::uint32)) = length (replicate l1 False)" by simp
  note sb = sortedBuckets_props [OF c l0_pos, where h = h and ks = ks]
  have bs_ok: "\<forall>b\<in>set ?bs. bucket_n b < length (replicate l0 (0::uint32)) \<and>
      (\<forall>i\<in>set (vals b). slot h (l0 - 1) 0 (ks ! i) = bucket_n b)"
    using sb(2) by auto
  from placeBuckets_keys [OF pb m1 len1 sb(1) bs_ok]
  have each: "\<forall>i\<in>{..<length ks}. lv1 ! keySlot h ks (l0 - 1) (l1 - 1) lv0 i = word_of_nat i"
    and inj: "inj_on (keySlot h ks (l0 - 1) (l1 - 1) lv0) {..<length ks}"
    unfolding sb(3) by simp_all
  from placeBuckets_basic [OF pb m1 len1]
  have ent: "\<forall>w\<in>set lv1. w \<in> set (replicate l1 0) \<or> (\<exists>b\<in>set ?bs. \<exists>i\<in>set (vals b). w = word_of_nat i)"
    by simp
  show "\<forall>i<length ks.
           level1 t ! keySlot h ks (level0Mask t) (level1Mask t) (level0 t) i = word_of_nat i"
    using each by (simp add: t)
  show "inj_on (keySlot h ks (level0Mask t) (level1Mask t) (level0 t)) {..<length ks}"
    using inj by (simp add: t)
  show "\<forall>w\<in>set (level1 t). w = 0 \<or> (\<exists>i<length ks. w = word_of_nat i)"
  proof
    fix w assume "w \<in> set (level1 t)"
    with ent t have "w \<in> set (replicate l1 0) \<or> (\<exists>b\<in>set ?bs. \<exists>i\<in>set (vals b). w = word_of_nat i)"
      by simp
    then show "w = 0 \<or> (\<exists>i<length ks. w = word_of_nat i)"
    proof
      assume "w \<in> set (replicate l1 0)" then show ?thesis by auto
    next
      assume "\<exists>b\<in>set ?bs. \<exists>i\<in>set (vals b). w = word_of_nat i"
      then obtain b i where "b \<in> set ?bs" "i \<in> set (vals b)" "w = word_of_nat i" by blast
      with sb(2) [of b] show ?thesis by auto
    qed
  qed
qed

lemma Build_length_le:
  assumes B: "Build srt h ks = Some t" and c: "sort_contract srt"
  shows "length ks \<le> 2 ^ 32"
proof -
  let ?f = "keySlot h ks (level0Mask t) (level1Mask t) (level0 t)"
  have "?f i < 2 ^ 32" for i
    unfolding keySlot_def by (rule slot_lt_2p32)
  then have "?f ` {..<length ks} \<subseteq> {..<2 ^ 32}"
    by blast
  with Build_core(2) [OF B c] have "card {..<length ks} \<le> card {..<(2::nat) ^ 32}"
    by (intro card_inj_on_le) simp_all
  then show ?thesis by simp
qed

lemma Build_distinct:
  assumes B: "Build srt h ks = Some t" and c: "sort_contract srt"
  shows "distinct ks"
proof (unfold distinct_conv_nth, intro allI impI)
  fix i j assume ij: "i < length ks" "j < length ks" "i \<noteq> j"
  let ?f = "keySlot h ks (level0Mask t) (level1Mask t) (level0 t)"
  show "ks ! i \<noteq> ks ! j"
  proof
    assume "ks ! i = ks ! j"
    then have "?f i = ?f j" by (simp add: keySlot_def)
    with Build_core(2) [OF B c] ij show False by (auto simp: inj_on_def)
  qed
qed

lemma unat_level1_entry:
  assumes B: "Build srt h ks = Some t" and c: "sort_contract srt" and i: "i < length ks"
  shows "unat (word_of_nat i :: uint32) = i"
proof -
  from Build_length_le [OF B c] i have "i < 2 ^ 32" by simp
  then show ?thesis by (simp add: unat_of_nat)
qed

lemma index_in_range: "i < length xs \<Longrightarrow> index xs i = Inr (xs ! i)"
  by (simp add: index_def)

lemma Build_slot_bounds:
  assumes B: "Build srt h ks = Some t"
  shows "slot h (level0Mask t) seed s < length (level0 t)"
    and "slot h (level1Mask t) seed s < length (level1 t)"
proof -
  note sz = Build_sizes [OF B]
  have "level0Mask t < length (level0 t)"
    using nextPow2_pos [OF sz(2)] sz(4) by arith
  then show "slot h (level0Mask t) seed s < length (level0 t)"
    using slot_le_mask [of h "level0Mask t" seed s] by arith
  have "level1Mask t < length (level1 t)"
    using nextPow2_pos [OF sz(3)] sz(5) by arith
  then show "slot h (level1Mask t) seed s < length (level1 t)"
    using slot_le_mask [of h "level1Mask t" seed s] by arith
qed

lemma Lookup_Build:
  assumes B: "Build srt h ks = Some t"
  shows "Lookup h t s =
     (let n = level1 t ! slot h (level1Mask t) (level0 t ! slot h (level0Mask t) 0 s) s
      in if unat n < length ks then Inr (n, s = ks ! unat n) else Inl IndexOutOfRange)"
  unfolding Lookup_def
  using Build_slot_bounds [OF B] Build_sizes(1) [OF B]
  by (simp add: index_def Let_def)

subsection \<open>The sorting instances meet the contract\<close>

text \<open>
  Both instances sort by insertion on the negated size.
\<close>

lemma sort_key_contract:
  "sorted_wrt (\<lambda>a b. \<not> Less b a) (sort_key (\<lambda>b. - int (length (vals b))) bs)"
proof -
  have "sorted (map (\<lambda>b. - int (length (vals b))) (sort_key (\<lambda>b. - int (length (vals b))) bs))"
    by (rule sorted_sort_key)
  then show ?thesis
    by (simp add: sorted_map Less_def not_less)
qed

lemma stableSort_contract: "sort_contract stableSort"
  unfolding sort_contract_def stableSort_def using sort_key_contract by simp


subsection \<open>Evaluation on concrete keys\<close>

text \<open>
  The search unfolded trial by trial, and \<open>Build\<close> evaluated on the example key lists.
\<close>

lemma trySeed_found:
  "tryVals h ks m seed vs (occ, [], lvl1) = (True, occ', tmp, lvl1') \<Longrightarrow>
   trySeed h ks m seed vs occ lvl1 = Some (seed, occ', lvl1')"
  by (subst trySeed.simps) simp

lemma trySeed_retry:
  "tryVals h ks m seed vs (occ, [], lvl1) = (False, occ', tmp, lvl1') \<Longrightarrow>
   trySeed h ks m seed vs occ lvl1 = trySeed h ks m (seed + 1) vs occ' lvl1'"
  by (subst trySeed.simps) simp

lemma nextPow2_3: "nextPow2 3 = Some 4" by code_simp
lemma nextPow2_0: "nextPow2 0 = Some 1" by code_simp

lemma tryVals_keys3_seed0: "tryVals exampleHash keys3 3 0 [0,1,2] ([False,False,False,False], [], [0,0,0,0])
  = (False, [False,False,False,False], [3, 2], [0, 0, 1, 0])"
  by (simp add: exampleHash_def slot_def Let_def)

lemma tryVals_keys3_seed1: "tryVals exampleHash keys3 3 1 [0,1,2] ([False,False,False,False], [], [0,0,1,0])
  = (True, [True,True,False,True], [0, 1, 3], [0, 1, 1, 2])"
  by (simp add: exampleHash_def slot_def Let_def)

lemma trySeed_keys3: "trySeed exampleHash keys3 3 0 [0,1,2] [False,False,False,False] [0,0,0,0]
  = Some (1, [True,True,False,True], [0, 1, 1, 2])"
  using trySeed_retry [OF tryVals_keys3_seed0] trySeed_found [OF tryVals_keys3_seed1] by simp

lemma Build_eval:
  assumes "nextPow2 (length ks div 4) = Some l0" and "nextPow2 (length ks) = Some l1"
    and "placeBuckets h ks (l1 - 1) (sortedBuckets srt h ks l0)
       (replicate l0 0, replicate l1 False, replicate l1 0) = Some (lv0, occ, lv1)"
  shows "Build srt h ks =
    Some \<lparr>keys = ks, level0 = lv0, level0Mask = l0 - 1, level1 = lv1, level1Mask = l1 - 1\<rparr>"
  using assms by (simp add: Build_def partitionKeys_pool)

lemma placeBuckets_single:
  "trySeed h ks m 0 vs occ lvl1 = Some (seed, occ', lvl1') \<Longrightarrow>
   placeBuckets h ks m [\<lparr>bucket_n = n, vals = vs\<rparr>] (lvl0, occ, lvl1) =
     Some (lvl0[n := seed], occ', lvl1')"
  by simp


lemma replicate_4: "replicate 4 x = [x, x, x, x]"
  by (simp add: eval_nat_numeral)

lemma replicate_8: "replicate 8 x = [x, x, x, x, x, x, x, x]"
  by (simp add: eval_nat_numeral)

lemma sortedBuckets_keys3: "sortedBuckets stableSort exampleHash keys3 1 =
   [\<lparr>bucket_n = 0, vals = [0, 1, 2]\<rparr>]"
  by (simp add: sortedBuckets_def slot_def Let_def stableSort_def)

lemma Build_keys3: "Build stableSort exampleHash keys3 = Some table3"
proof -
  let ?ks = "keys3"
  have len: "length ?ks = 3" by simp
  have l0: "nextPow2 (length ?ks div 4) = Some 1" unfolding len by (simp add: nextPow2_0)
  have l1: "nextPow2 (length ?ks) = Some 4" unfolding len by (rule nextPow2_3)
  have "placeBuckets exampleHash ?ks 3 [\<lparr>bucket_n = 0, vals = [0, 1, 2]\<rparr>]
      ([0], [False, False, False, False], [0, 0, 0, 0]) =
      Some ([0][0 := 1], [True, True, False, True], [0, 1, 1, 2])"
    by (rule placeBuckets_single [OF trySeed_keys3])
  then have pb: "placeBuckets exampleHash ?ks (4 - 1) (sortedBuckets stableSort exampleHash ?ks 1)
      (replicate 1 0, replicate 4 False, replicate 4 0) =
      Some ([1], [True, True, False, True], [0, 1, 1, 2])"
    unfolding sortedBuckets_keys3 replicate_4 by simp
  show ?thesis using Build_eval [OF l0 l1 pb] by simp
qed

lemma nextPow2_5: "nextPow2 5 = Some 8" by code_simp
lemma nextPow2_1: "nextPow2 1 = Some 1" by code_simp

lemma sortedBuckets_keys5: "sortedBuckets stableSort exampleHash keys5 1 =
   [\<lparr>bucket_n = 0, vals = [0, 1, 2, 3, 4]\<rparr>]"
  by (simp add: sortedBuckets_def slot_def Let_def stableSort_def)

lemma tryVals_keys5_seed0: "tryVals exampleHash keys5 7 0 [0, 1, 2, 3, 4]
    ([False, False, False, False, False, False, False, False], [], [0, 0, 0, 0, 0, 0, 0, 0])
  = (True, [True, False, True, True, True, True, False, False], [4, 5, 2, 3, 0],
     [4, 0, 2, 3, 0, 1, 0, 0])"
  by (simp add: exampleHash_def slot_def Let_def)

lemma Build_keys5: "Build stableSort exampleHash keys5 = Some table5"
proof -
  let ?ks = "keys5"
  have len: "length ?ks = 5" by simp
  have l0: "nextPow2 (length ?ks div 4) = Some 1" unfolding len using nextPow2_1 by simp
  have l1: "nextPow2 (length ?ks) = Some 8" unfolding len by (rule nextPow2_5)
  have "placeBuckets exampleHash ?ks 7 [\<lparr>bucket_n = 0, vals = [0, 1, 2, 3, 4]\<rparr>]
      ([0], [False, False, False, False, False, False, False, False], [0, 0, 0, 0, 0, 0, 0, 0]) =
      Some ([0][0 := 0], [True, False, True, True, True, True, False, False],
        [4, 0, 2, 3, 0, 1, 0, 0])"
    by (rule placeBuckets_single [OF trySeed_found [OF tryVals_keys5_seed0]])
  then have pb: "placeBuckets exampleHash ?ks (8 - 1) (sortedBuckets stableSort exampleHash ?ks 1)
      (replicate 1 0, replicate 8 False, replicate 8 0) =
      Some ([0], [True, False, True, True, True, True, False, False], [4, 0, 2, 3, 0, 1, 0, 0])"
    unfolding sortedBuckets_keys5 replicate_8 by simp
  show ?thesis using Build_eval [OF l0 l1 pb] by simp
qed

lemma Build_no_keys: "sort_contract srt \<Longrightarrow> Build srt h [] = Some emptyTable"
proof -
  assume c: "sort_contract srt"
  have "mset (srt []) = mset []" using c unfolding sort_contract_def by blast
  then have s: "srt [] = []" by simp
  have sb: "sortedBuckets srt h [] 1 = []"
    by (simp add: sortedBuckets_def s)
  have l: "nextPow2 (length ([]::bytes list) div 4) = Some 1" "nextPow2 (length ([]::bytes list)) = Some 1"
    by (simp_all add: nextPow2_0)
  have pb: "placeBuckets h [] (1 - 1) (sortedBuckets srt h [] 1)
      (replicate 1 0, replicate 1 False, replicate 1 0) = Some ([0], [False], [0])"
    unfolding sb by simp
  show ?thesis using Build_eval [OF l pb] by simp
qed


subsection \<open>Lookup on a built table, the bucket order and the pool\<close>

text \<open>
  What \<open>Lookup\<close> returns on a table of \<open>Build\<close>, the order of the buckets under the
  contract of the sorting routine, and the pool over the explicit store.
\<close>

lemma Lookup_key:
  assumes c: "sort_contract srt" and B: "Build srt h ks = Some t" and i: "i < length ks"
  shows "Lookup h t (ks ! i) = Inr (word_of_nat i, True)"
proof -
  have path: "level1 t ! slot h (level1Mask t) (level0 t ! slot h (level0Mask t) 0 (ks ! i)) (ks ! i)
      = word_of_nat i"
    using Build_core(1) [OF B c] i by (simp add: keySlot_def)
  show ?thesis
    unfolding Lookup_Build [OF B] path using unat_level1_entry [OF B c i] i by simp
qed


lemma level1_entry_lt:
  assumes c: "sort_contract srt" and B: "Build srt h ks = Some t" and ne: "ks \<noteq> []"
    and w: "w \<in> set (level1 t)"
  shows "unat w < length ks"
proof -
  from Build_core(3) [OF B c] w have "w = 0 \<or> (\<exists>i<length ks. w = word_of_nat i)" by blast
  then show ?thesis
  proof
    assume "w = 0"
    with ne show ?thesis by simp
  next
    assume "\<exists>i<length ks. w = word_of_nat i"
    then obtain i where i: "i < length ks" "w = word_of_nat i" by blast
    with unat_level1_entry [OF B c i(1)] show ?thesis by simp
  qed
qed

lemma Lookup_nonempty:
  assumes c: "sort_contract srt" and B: "Build srt h ks = Some t" and ne: "ks \<noteq> []"
  shows "\<exists>n. unat n < length ks \<and> Lookup h t z = Inr (n, z = ks ! unat n)"
proof -
  let ?n = "level1 t ! slot h (level1Mask t) (level0 t ! slot h (level0Mask t) 0 z) z"
  have "?n \<in> set (level1 t)"
    by (rule nth_mem) (rule Build_slot_bounds(2) [OF B])
  then have lt: "unat ?n < length ks" by (rule level1_entry_lt [OF c B ne])
  then have "Lookup h t z = Inr (?n, z = ks ! unat ?n)"
    unfolding Lookup_Build [OF B] by (simp add: Let_def)
  with lt show ?thesis by blast
qed

lemma Lookup_empty_table:
  "Lookup h emptyTable z = Inl IndexOutOfRange"
  by (simp add: Lookup_def index_def slot_def)


lemma poolOfBytes_eq: "poolOfBytes ks (st, pool) = (st, pool @ ks)"
  by (induction ks arbitrary: pool) (simp_all add: bytesOfBytes_def)

lemma poolOfStrings_eq:
  "poolOfStrings ss (st, pool) = (st @ ss, pool @ [length st..<length st + length ss])"
proof (induction ss arbitrary: st pool)
  case Nil
  then show ?case by simp
next
  case (Cons s ss)
  have "[length st..<length st + length (s # ss)] =
      length st # [length (st @ [s])..<length (st @ [s]) + length ss]"
    by (simp add: upt_rec)
  then show ?case by (simp add: bytesOfString_def Cons.IH)
qed

lemma poolOfStrings_owned:
  assumes "poolOfStrings ss (st, []) = (st', pool)" and "a < length st"
  shows "poolContents st' pool = ss \<and> poolContents (st'[a := v]) pool = ss"
proof -
  from assms(1) have st': "st' = st @ ss" and pool: "pool = [length st..<length st + length ss]"
    by (simp_all add: poolOfStrings_eq)
  have "(st @ ss) ! i = ss ! (i - length st) \<and> ((st @ ss)[a := v]) ! i = ss ! (i - length st)"
    if "length st \<le> i" for i
    using that assms(2) by (simp add: nth_append)
  then have "map (\<lambda>i. (st @ ss) ! i) [length st..<length st + length ss] = ss
      \<and> map (\<lambda>i. ((st @ ss)[a := v]) ! i) [length st..<length st + length ss] = ss"
    by (auto intro!: nth_equalityI)
  then show ?thesis by (simp add: poolContents_def st' pool)
qed


lemma absent_key_cases:
  assumes c: "sort_contract srt" and B: "Build srt h ks = Some t" and z: "z \<notin> set ks"
  shows "if ks = [] then Lookup h t z = Inl IndexOutOfRange
         else \<exists>n. Lookup h t z = Inr (n, False)"
proof (cases "ks = []")
  case True
  with Build_no_keys [OF c, of h] B Lookup_empty_table [of h z] show ?thesis by simp
next
  case False
  from Lookup_nonempty [OF c B False, of z]
  obtain n where n: "unat n < length ks" "Lookup h t z = Inr (n, z = ks ! unat n)" by blast
  from n(1) z have "z \<noteq> ks ! unat n" by (metis nth_mem)
  with n(2) False show ?thesis by simp
qed

lemma absent_key_not_found:
  assumes c: "sort_contract srt" and B: "Build srt h ks = Some t" and z: "z \<notin> set ks"
  shows "Lookup h t z \<noteq> Inr (n, True)"
  using absent_key_cases [OF c B z] by (auto split: if_splits)





lemma nextPow2_2: "nextPow2 2 = Some 2" by code_simp

section \<open>The claims\<close>

text \<open>
  C1. For a list of pairwise distinct keys on which \<open>Build\<close> returns a table, the key at
  input position \<open>i\<close> satisfies the two-level path equation: with
  \<open>i0 = hash(0, k) & level0Mask\<close>, \<open>seed = level0[i0]\<close> and
  \<open>i1 = hash(seed, k) & level1Mask\<close>, both reads are in range and \<open>level1[i1] = i\<close>;
  and \<open>Lookup\<close> of that key returns \<open>(i, true)\<close>, where \<open>keys[i]\<close> of the table is the key.
\<close>

theorem Lookup_member:
  assumes "sort_contract srt" and "distinct ks" and "Build srt h ks = Some t" and "i < length ks"
  shows "slot h (level0Mask t) 0 (ks ! i) < length (level0 t) \<and>
    slot h (level1Mask t) (level0 t ! slot h (level0Mask t) 0 (ks ! i)) (ks ! i) < length (level1 t) \<and>
    unat (level1 t ! slot h (level1Mask t) (level0 t ! slot h (level0Mask t) 0 (ks ! i)) (ks ! i)) = i \<and>
    Lookup h t (ks ! i) = Inr (word_of_nat i, True) \<and>
    unat (word_of_nat i :: uint32) = i \<and>
    keys t ! i = ks ! i"
proof -
  note B = assms(3) and c = assms(1) and i = assms(4)
  have path: "level1 t ! slot h (level1Mask t) (level0 t ! slot h (level0Mask t) 0 (ks ! i)) (ks ! i)
      = word_of_nat i"
    using Build_core(1) [OF B c] i by (simp add: keySlot_def)
  show ?thesis
    unfolding path
    using Build_slot_bounds [OF B] unat_level1_entry [OF B c i] Lookup_key [OF c B i]
      Build_sizes(1) [OF B]
    by simp
qed

theorem Lookup_member_witness:
  "sort_contract stableSort \<and> distinct keys3 \<and>
   Build stableSort exampleHash keys3 = Some table3 \<and>
   (2::nat) < length keys3 \<and>
   Lookup exampleHash table3 ''quux'' = Inr (2, True)"
  using Lookup_member [OF stableSort_contract _ Build_keys3, of 2] stableSort_contract Build_keys3
  by simp

text \<open>
  C2. For pairwise distinct keys on which \<open>Build\<close> returns a table, the indices that
  \<open>Lookup\<close> returns for the keys, in input order, are \<open>0, 1, ..., n - 1\<close>: as a multiset
  they are the range \<open>[0, n)\<close> with every value exactly once.
\<close>

theorem Lookup_bijection:
  assumes "sort_contract srt" and "distinct ks" and "Build srt h ks = Some t"
  shows "map (lookupIndex h t) ks = map Some [0..<length ks] \<and>
    mset (map (lookupIndex h t) ks) = mset (map Some [0..<length ks])"
proof -
  note c = assms(1) and B = assms(3)
  have "map (lookupIndex h t) ks = map Some [0..<length ks]"
  proof (rule nth_equalityI)
    show "length (map (lookupIndex h t) ks) = length (map Some [0..<length ks])" by simp
  next
    fix i assume "i < length (map (lookupIndex h t) ks)"
    then have i: "i < length ks" by simp
    then show "map (lookupIndex h t) ks ! i = map Some [0..<length ks] ! i"
      using Lookup_key [OF c B i] unat_level1_entry [OF B c i]
      by (simp add: lookupIndex_def)
  qed
  then show ?thesis by simp
qed

theorem Lookup_bijection_witness:
  "sort_contract stableSort \<and> distinct keys3 \<and>
   Build stableSort exampleHash keys3 = Some table3 \<and>
   map (lookupIndex exampleHash table3) keys3 =
     [Some 0, Some 1, Some 2]"
  using Lookup_bijection [OF stableSort_contract _ Build_keys3] stableSort_contract Build_keys3
  by (simp add: upt_rec [of 0] upt_rec [of 1] upt_rec [of 2] numeral_3_eq_3)

text \<open>
  C3. \<open>Build\<close> on the empty key list returns the table of minimum size, both arrays of
  length 1. On that table \<open>Lookup\<close> does not return \<open>found = false\<close>: for every query key
  it reads \<^verbatim>\<open>t.keys[0]\<close> of an empty \<^verbatim>\<open>keys\<close> and panics.
\<close>

theorem Build_empty:
  assumes "sort_contract srt"
  shows "Build srt h [] = Some emptyTable \<and>
    Lookup h emptyTable z = Inl IndexOutOfRange"
  using Build_no_keys [OF assms] Lookup_empty_table by simp

theorem Build_empty_witness:
  "sort_contract stableSort \<and>
   Build stableSort exampleHash [] = Some emptyTable \<and>
   Lookup exampleHash emptyTable ''a'' = Inl IndexOutOfRange"
  using Build_empty [OF stableSort_contract, of exampleHash "''a''"] stableSort_contract
  by simp

text \<open>
  C4. For pairwise distinct keys on which \<open>Build\<close> returns a table and a query key \<open>z\<close>
  that is none of them: when the key list is not empty, \<open>Lookup\<close> returns
  \<open>found = false\<close>; when it is empty, \<open>Lookup\<close> panics instead of returning.
\<close>

theorem Lookup_absent:
  assumes "sort_contract srt" and "distinct ks" and "Build srt h ks = Some t" and "z \<notin> set ks"
  shows "if ks = [] then Lookup h t z = Inl IndexOutOfRange
         else \<exists>n. Lookup h t z = Inr (n, False)"
  by (rule absent_key_cases [OF assms(1,3,4)])

theorem Lookup_absent_witness:
  "sort_contract stableSort \<and> distinct ([] :: bytes list) \<and>
   Build stableSort exampleHash [] = Some emptyTable \<and>
   ''z'' \<notin> set ([] :: bytes list) \<and>
   Lookup exampleHash emptyTable ''z'' = Inl IndexOutOfRange \<and>
   distinct keys3 \<and>
   Build stableSort exampleHash keys3 = Some table3 \<and>
   ''z'' \<notin> set keys3 \<and>
   (\<exists>n. Lookup exampleHash table3 ''z'' = Inr (n, False))"
  using Lookup_absent [OF stableSort_contract _ Build_no_keys [OF stableSort_contract], of "''z''" exampleHash]
    Lookup_absent [OF stableSort_contract _ Build_keys3, of "''z''"]
    stableSort_contract Build_no_keys [OF stableSort_contract, of exampleHash] Build_keys3
  by simp

text \<open>
  C5 as stated fails: a slot of \<^verbatim>\<open>level1\<close> that no key is assigned to need not hold the
  default. For the keys below, the trial of seed 0 writes index 1 to slot 2 and then fails;
  its marks in \<^verbatim>\<open>occ\<close> are cleared, its write to \<^verbatim>\<open>level1\<close> is not. Seed 1 places the
  keys in slots 0, 1 and 3, and slot 2 still holds 1 in the table.
\<close>

theorem stale_slot_counterexample:
  "distinct keys3 \<and>
   tryVals exampleHash keys3 3 0 [0, 1, 2]
     ([False, False, False, False], [], [0, 0, 0, 0]) =
     (False, [False, False, False, False], [3, 2], [0, 0, 1, 0]) \<and>
   Build stableSort exampleHash keys3 = Some table3 \<and>
   keySlot exampleHash keys3 0 3 [1] 0 = 0 \<and>
   keySlot exampleHash keys3 0 3 [1] 1 = 1 \<and>
   keySlot exampleHash keys3 0 3 [1] 2 = 3 \<and>
   [0, 1, 1, 2 :: uint32] ! 2 = 1 \<and> (1 :: uint32) \<noteq> 0"
  using tryVals_keys3_seed0 Build_keys3 by (simp add: keySlot_def slot_def exampleHash_def)

text \<open>
  C5, amended. For pairwise distinct keys on which \<open>Build\<close> returns a table: distinct keys
  occupy distinct slots of \<^verbatim>\<open>level1\<close>, and the slot of a key holds its index; a slot that
  no key occupies holds the default 0 or the index of some key, left by a discarded trial;
  \<open>Lookup\<close> never returns \<open>found = true\<close> for a key that was not inserted; and a failed
  trial of a seed returns \<^verbatim>\<open>occ\<close> as it was before the trial.
\<close>

theorem level1_slots:
  assumes "sort_contract srt" and "distinct ks" and "Build srt h ks = Some t"
  shows "inj_on (keySlot h ks (level0Mask t) (level1Mask t) (level0 t)) {..<length ks} \<and>
    (\<forall>i<length ks. keySlot h ks (level0Mask t) (level1Mask t) (level0 t) i < length (level1 t) \<and>
       level1 t ! keySlot h ks (level0Mask t) (level1Mask t) (level0 t) i = word_of_nat i) \<and>
    (\<forall>k<length (level1 t).
       k \<notin> keySlot h ks (level0Mask t) (level1Mask t) (level0 t) ` {..<length ks} \<longrightarrow>
       level1 t ! k = 0 \<or> (\<exists>i<length ks. level1 t ! k = word_of_nat i)) \<and>
    (\<forall>z n. z \<notin> set ks \<longrightarrow> Lookup h t z \<noteq> Inr (n, True)) \<and>
    (\<forall>seed vs occ lvl1 occ' tmpOcc lvl1'.
       tryVals h ks (level1Mask t) seed vs (occ, [], lvl1) = (False, occ', tmpOcc, lvl1') \<longrightarrow>
       occ' = occ)"
proof -
  note c = assms(1) and B = assms(3)
  let ?sl = "keySlot h ks (level0Mask t) (level1Mask t) (level0 t)"
  have 1: "inj_on ?sl {..<length ks}" by (rule Build_core(2) [OF B c])
  have 2: "\<forall>i<length ks. ?sl i < length (level1 t) \<and> level1 t ! ?sl i = word_of_nat i"
    using Build_core(1) [OF B c] Build_slot_bounds(2) [OF B] by (simp add: keySlot_def)
  have 3: "\<forall>k<length (level1 t). k \<notin> ?sl ` {..<length ks} \<longrightarrow>
       level1 t ! k = 0 \<or> (\<exists>i<length ks. level1 t ! k = word_of_nat i)"
    using Build_core(3) [OF B c] by (auto dest: nth_mem)
  have 4: "\<forall>z n. z \<notin> set ks \<longrightarrow> Lookup h t z \<noteq> Inr (n, True)"
    using absent_key_not_found [OF c B] by blast
  have 5: "\<forall>seed vs occ lvl1 occ' tmpOcc lvl1'.
       tryVals h ks (level1Mask t) seed vs (occ, [], lvl1) = (False, occ', tmpOcc, lvl1') \<longrightarrow>
       occ' = occ"
    using tryVals_fail_restores by blast
  from 1 2 3 4 5 show ?thesis by blast
qed

theorem level1_slots_witness:
  "sort_contract stableSort \<and> distinct keys3 \<and>
   Build stableSort exampleHash keys3 = Some table3 \<and>
   inj_on (keySlot exampleHash keys3 (level0Mask table3) (level1Mask table3) (level0 table3))
     {..<length keys3} \<and>
   (1::nat) < length keys3 \<and>
   level1 table3 ! keySlot exampleHash keys3 (level0Mask table3) (level1Mask table3) (level0 table3) 1
     = word_of_nat 1 \<and>
   (2::nat) < length (level1 table3) \<and>
   2 \<notin> keySlot exampleHash keys3 (level0Mask table3) (level1Mask table3) (level0 table3) `
     {..<length keys3} \<and>
   (level1 table3 ! 2 = 0 \<or> (\<exists>i<length keys3. level1 table3 ! 2 = word_of_nat i)) \<and>
   ''z'' \<notin> set keys3 \<and> Lookup exampleHash table3 ''z'' \<noteq> Inr (1, True) \<and>
   tryVals exampleHash keys3 (level1Mask table3) 0 [0, 1, 2]
     ([False, False, False, False], [], [0, 0, 0, 0]) =
     (False, [False, False, False, False], [3, 2], [0, 0, 1, 0])"
proof -
  have d: "distinct keys3" by simp
  note r = level1_slots [OF stableSort_contract d Build_keys3]
  have one: "(1::nat) < length keys3" and two: "(2::nat) < length (level1 table3)"
    and z: "''z'' \<notin> set keys3"
    by simp_all
  have free: "2 \<notin> keySlot exampleHash keys3 (level0Mask table3) (level1Mask table3)
      (level0 table3) ` {..<length keys3}"
    by (simp add: lessThan_Suc keySlot_def slot_def exampleHash_def)
  have tv: "tryVals exampleHash keys3 (level1Mask table3) 0 [0, 1, 2]
     ([False, False, False, False], [], [0, 0, 0, 0]) =
     (False, [False, False, False, False], [3, 2], [0, 0, 1, 0])"
    using tryVals_keys3_seed0 by simp
  show ?thesis using stableSort_contract d Build_keys3 r one two z free tv by blast
qed

text \<open>
  C6 as stated fails for \<^verbatim>\<open>level0\<close>: its length is computed from \<^verbatim>\<open>len(keys)/4\<close>, an
  integer division that rounds down. For five keys the length is 1, while
  \<open>ceil(5/4) = 2\<close> and \<open>nextPow2(2) = 2\<close>.
\<close>

theorem level0_size_counterexample:
  "Build stableSort exampleHash keys5 = Some table5 \<and>
   length (level0 table5) = 1 \<and>
   (length keys5 + 3) div 4 = 2 \<and>
   \<not> max 1 ((length keys5 + 3) div 4) \<le> length (level0 table5) \<and>
   nextPow2 ((length keys5 + 3) div 4) = Some 2 \<and>
   Some (length (level0 table5)) \<noteq> nextPow2 ((length keys5 + 3) div 4)"
  using Build_keys5 nextPow2_2 by simp

text \<open>
  C6, amended. For every key list on which \<open>Build\<close> returns a table, with \<open>n\<close> keys: the
  length of \<^verbatim>\<open>level0\<close> is \<open>nextPow2(floor(n/4))\<close>, the smallest power of two that is at
  least \<open>max(1, floor(n/4))\<close>; the length of \<^verbatim>\<open>level1\<close> is \<open>nextPow2(n)\<close>, the smallest
  power of two that is at least \<open>max(1, n)\<close>; and the masks are the lengths minus one.
\<close>

theorem Build_table_sizes:
  assumes "Build srt h ks = Some t"
  shows "\<exists>a b. length (level0 t) = 2 ^ a \<and> nextPow2 (length ks div 4) = Some (2 ^ a) \<and>
      max 1 (length ks div 4) \<le> 2 ^ a \<and> (0 < a \<longrightarrow> 2 ^ (a - 1) < length ks div 4) \<and>
      length (level1 t) = 2 ^ b \<and> nextPow2 (length ks) = Some (2 ^ b) \<and>
      max 1 (length ks) \<le> 2 ^ b \<and> (0 < b \<longrightarrow> 2 ^ (b - 1) < length ks) \<and>
      level0Mask t = 2 ^ a - 1 \<and> level1Mask t = 2 ^ b - 1"
proof -
  note sz = Build_sizes [OF assms]
  from nextPow2_returns [of "length ks div 4"] sz(2)
  obtain a where a: "length (level0 t) = 2 ^ a" "length ks div 4 \<le> 2 ^ a"
    "0 < a \<longrightarrow> 2 ^ (a - 1) < length ks div 4"
    by auto
  from nextPow2_returns [of "length ks"] sz(3)
  obtain b where b: "length (level1 t) = 2 ^ b" "length ks \<le> 2 ^ b"
    "0 < b \<longrightarrow> 2 ^ (b - 1) < length ks"
    by auto
  have m: "max 1 (length ks div 4) \<le> (2::nat) ^ a" "max 1 (length ks) \<le> (2::nat) ^ b"
    using a(2) b(2) by simp_all
  have n: "nextPow2 (length ks div 4) = Some (2 ^ a)" "nextPow2 (length ks) = Some (2 ^ b)"
    "level0Mask t = 2 ^ a - 1" "level1Mask t = 2 ^ b - 1"
    using sz a(1) b(1) by simp_all
  from a b m n show ?thesis by blast
qed

theorem Build_table_sizes_witness:
  "Build stableSort exampleHash keys5 = Some table5 \<and>
   (\<exists>a b. length (level0 table5) = 2 ^ a \<and> nextPow2 (length keys5 div 4) = Some (2 ^ a) \<and>
      max 1 (length keys5 div 4) \<le> 2 ^ a \<and> (0 < a \<longrightarrow> 2 ^ (a - 1) < length keys5 div 4) \<and>
      length (level1 table5) = 2 ^ b \<and> nextPow2 (length keys5) = Some (2 ^ b) \<and>
      max 1 (length keys5) \<le> 2 ^ b \<and> (0 < b \<longrightarrow> 2 ^ (b - 1) < length keys5) \<and>
      level0Mask table5 = 2 ^ a - 1 \<and> level1Mask table5 = 2 ^ b - 1)"
  using Build_table_sizes [OF Build_keys5] Build_keys5 by blast






text \<open>
  C9. For a table that \<open>Build\<close> returns for a non-empty list of \<open>n\<close> keys, every entry of
  \<^verbatim>\<open>level1\<close> is less than \<open>n\<close>, and \<open>Lookup\<close> returns for every query key, with an index
  that is in range for \<^verbatim>\<open>keys\<close>.
\<close>

theorem level1_in_bounds:
  assumes "sort_contract srt" and "Build srt h ks = Some t" and "ks \<noteq> []"
  shows "(\<forall>w\<in>set (level1 t). unat w < length ks) \<and>
    (\<exists>n ok. Lookup h t z = Inr (n, ok) \<and> unat n < length (keys t))"
proof -
  have 1: "\<forall>w\<in>set (level1 t). unat w < length ks"
    using level1_entry_lt [OF assms] by blast
  from Lookup_nonempty [OF assms, of z] Build_sizes(1) [OF assms(2)]
  have 2: "\<exists>n ok. Lookup h t z = Inr (n, ok) \<and> unat n < length (keys t)" by auto
  from 1 2 show ?thesis by blast
qed

theorem level1_in_bounds_witness:
  "sort_contract stableSort \<and> Build stableSort exampleHash keys3 = Some table3 \<and> keys3 \<noteq> [] \<and>
   (2 :: uint32) \<in> set (level1 table3) \<and> unat (2 :: uint32) < length keys3 \<and>
   (\<exists>n ok. Lookup exampleHash table3 ''z'' = Inr (n, ok) \<and> unat n < length (keys table3))"
proof -
  have ne: "keys3 \<noteq> []" by simp
  note r = level1_in_bounds [OF stableSort_contract Build_keys3 ne, of "''z''"]
  have m: "(2 :: uint32) \<in> set (level1 table3)" by simp
  show ?thesis using stableSort_contract Build_keys3 ne r m by blast
qed

text \<open>
  C10 fails for keys of type \<^verbatim>\<open>[]byte\<close>: the pool holds the caller's slices themselves.
  With one key whose backing array holds \<open>a\<close>, the pool is the address of that array, and
  after the caller overwrites the array with \<open>b\<close> the pool reads \<open>b\<close>.
\<close>

theorem pool_aliases_caller_bytes:
  "poolOfBytes [0] ([''a''], []) = ([''a''], [0]) \<and>
   poolContents [''a''] [0] = [''a''] \<and>
   poolContents ([''a''][0 := ''b'']) [0] = [''b'']"
  by (simp add: bytesOfBytes_def poolContents_def)

end
